theory Spec2Isabelle
  imports Complex_Main
begin

section \<open>The fixed-window rate limiter of \<^verbatim>\<open>utils/rate-limiter.ts\<close>\<close>

text \<open>
  The class \<^verbatim>\<open>RateLimiter\<close> keeps a \<^verbatim>\<open>Map<string, RateLimitRecord>\<close> and two
  configuration numbers. Its methods are embedded as functions that take the object and
  return the updated object. Two things the TypeScript leaves implicit are made explicit:

  \<^item> \<^verbatim>\<open>Date.now()\<close> is an input. \<^verbatim>\<open>isRateLimited\<close> reads the clock twice, once inside
    \<^verbatim>\<open>cleanup()\<close> (line 43) and once for its own decision (line 26), so the embedding takes
    both readings as arguments, in that order.
  \<^item> Reading a property of \<^verbatim>\<open>undefined\<close> throws a \<^verbatim>\<open>TypeError\<close> in JavaScript.
    \<^verbatim>\<open>Map.get\<close> returns \<^verbatim>\<open>undefined\<close> for a missing key, so every read of
    \<^verbatim>\<open>record.count\<close> and \<^verbatim>\<open>record.resetTime\<close> is a fallible step of the model, and a
    method that performs one returns \<open>error + result\<close>.

  The TypeScript type \<^verbatim>\<open>number\<close> is modelled in two ways. Timestamps are whole
  milliseconds and the window is taken to be a whole number of milliseconds, so they are
  \<open>int\<close>; a count is written only as \<open>1\<close> or as a count plus one, so it is \<open>int\<close> too.
  The limit \<open>maxRequests\<close> is compared with the count and the constructor does not check
  it: it may be zero, negative or fractional (\<^verbatim>\<open>new RateLimiter(1000, 1.5)\<close>), so it is
  \<open>real\<close>, and the comparison of line 34 is made in the reals.
\<close>

subsection \<open>Data\<close>

record RateLimitRecord =
  count :: int
  resetTime :: int

record RateLimiter =
  store :: "string \<rightharpoonup> RateLimitRecord"
  windowMs :: int
  maxRequests :: real

datatype error = TypeError

subsection \<open>Property reads on a value that may be undefined\<close>

definition read_count :: "RateLimitRecord option \<Rightarrow> error + int" where
  "read_count record = (case record of None \<Rightarrow> Inl TypeError | Some r \<Rightarrow> Inr (count r))"

definition read_resetTime :: "RateLimitRecord option \<Rightarrow> error + int" where
  "read_resetTime record = (case record of None \<Rightarrow> Inl TypeError | Some r \<Rightarrow> Inr (resetTime r))"

subsection \<open>Methods\<close>

text \<open>Lines 17-21. The defaults of the two parameters are \<open>60000\<close> and \<open>100\<close>.\<close>

definition construct :: "int \<Rightarrow> real \<Rightarrow> RateLimiter" where
  "construct w m = \<lparr>store = Map.empty, windowMs = w, maxRequests = m\<rparr>"

definition construct_default :: RateLimiter where
  "construct_default = construct 60000 100"

text \<open>
  Lines 42-49. The loop visits every entry of the map once and deletes the entries whose
  \<open>resetTime\<close> lies strictly before the clock reading; deleting the current entry while
  iterating a JavaScript \<^verbatim>\<open>Map\<close> is well defined. Every record the loop reads comes
  from an entry of the map, so it is never \<^verbatim>\<open>undefined\<close>.
\<close>

definition cleanup :: "int \<Rightarrow> RateLimiter \<Rightarrow> RateLimiter" where
  "cleanup now rl =
     rl\<lparr>store := (\<lambda>key. case store rl key of
                        None \<Rightarrow> None
                      | Some record \<Rightarrow> if now > resetTime record then None else Some record)\<rparr>"

text \<open>
  Lines 26-39, the body of \<^verbatim>\<open>isRateLimited\<close> after the call of \<^verbatim>\<open>cleanup()\<close>. The
  operator \<^verbatim>\<open>||\<close> evaluates \<^verbatim>\<open>now > record.resetTime\<close> only when \<^verbatim>\<open>!record\<close> is false.
  \<^verbatim>\<open>record.count++\<close> mutates the object stored in the map, which the model writes as an
  update of the map at \<open>identifier\<close>.
\<close>

definition decide :: "int \<Rightarrow> string \<Rightarrow> RateLimiter \<Rightarrow> error + (bool \<times> RateLimiter)" where
  "decide now identifier rl =
     (let record = store rl identifier in
      case (if record = None then Inr True
            else case read_resetTime record of
                   Inl e \<Rightarrow> Inl e
                 | Inr rt \<Rightarrow> Inr (now > rt)) of
        Inl e \<Rightarrow> Inl e
      | Inr True \<Rightarrow>
          Inr (False,
               rl\<lparr>store := (store rl)(identifier \<mapsto>
                      \<lparr>count = 1, resetTime = now + windowMs rl\<rparr>)\<rparr>)
      | Inr False \<Rightarrow>
          (case read_count record of
             Inl e \<Rightarrow> Inl e
           | Inr c \<Rightarrow>
               if real_of_int c \<ge> maxRequests rl then Inr (True, rl)
               else Inr (False,
                         rl\<lparr>store := (store rl)(identifier :=
                                map_option (\<lambda>r. r\<lparr>count := c + 1\<rparr>) record)\<rparr>)))"

text \<open>Lines 23-40: the sweep with its own clock reading, then the decision.\<close>

definition isRateLimited ::
  "int \<Rightarrow> int \<Rightarrow> string \<Rightarrow> RateLimiter \<Rightarrow> error + (bool \<times> RateLimiter)" where
  "isRateLimited sweep_now now identifier rl = decide now identifier (cleanup sweep_now rl)"

text \<open>
  The same method with line 24 left out, for the comparison with the sweep. It is the body
  of \<^verbatim>\<open>isRateLimited\<close> in the second \<^verbatim>\<open>RateLimiter\<close> class of \<^verbatim>\<open>utils/security.ts\<close>, with
  the window and the limit taken from the object.
\<close>

definition isRateLimited_without_cleanup ::
  "int \<Rightarrow> string \<Rightarrow> RateLimiter \<Rightarrow> error + (bool \<times> RateLimiter)" where
  "isRateLimited_without_cleanup now identifier rl = decide now identifier rl"

text \<open>Lines 52-55: \<^verbatim>\<open>record ? record.count : 0\<close>. The method has no write and no clock.\<close>

definition getCount :: "string \<Rightarrow> RateLimiter \<Rightarrow> error + int" where
  "getCount identifier rl =
     (let record = store rl identifier in
      if record \<noteq> None then read_count record else Inr 0)"

text \<open>Lines 58-60 and 63-65. \<^verbatim>\<open>Map.delete\<close> and \<^verbatim>\<open>Map.clear\<close> do not throw.\<close>

definition reset :: "string \<Rightarrow> RateLimiter \<Rightarrow> RateLimiter" where
  "reset identifier rl = rl\<lparr>store := (store rl)(identifier := None)\<rparr>"

definition clear :: "RateLimiter \<Rightarrow> RateLimiter" where
  "clear rl = rl\<lparr>store := Map.empty\<rparr>"

subsection \<open>Calls and runs\<close>

text \<open>
  A call of a method with the clock readings it observes, the value it returns, and the
  execution of a sequence of calls on one object. A thrown error ends the run.
\<close>

datatype call =
    IsRateLimited string int int
  | GetCount string
  | Reset string
  | Clear
  | Cleanup int

datatype result = Bool bool | Number int | Void

fun exec :: "call \<Rightarrow> RateLimiter \<Rightarrow> error + (result \<times> RateLimiter)" where
  "exec (IsRateLimited identifier sweep_now now) rl =
     (case isRateLimited sweep_now now identifier rl of
        Inl e \<Rightarrow> Inl e
      | Inr (b, rl') \<Rightarrow> Inr (Bool b, rl'))"
| "exec (GetCount identifier) rl =
     (case getCount identifier rl of
        Inl e \<Rightarrow> Inl e
      | Inr n \<Rightarrow> Inr (Number n, rl))"
| "exec (Reset identifier) rl = Inr (Void, reset identifier rl)"
| "exec Clear rl = Inr (Void, clear rl)"
| "exec (Cleanup now) rl = Inr (Void, cleanup now rl)"

fun run :: "call list \<Rightarrow> RateLimiter \<Rightarrow> error + (result list \<times> RateLimiter)" where
  "run [] rl = Inr ([], rl)"
| "run (c # cs) rl =
     (case exec c rl of
        Inl e \<Rightarrow> Inl e
      | Inr (v, rl') \<Rightarrow>
          (case run cs rl' of
             Inl e \<Rightarrow> Inl e
           | Inr (vs, rl'') \<Rightarrow> Inr (v # vs, rl'')))"

definition outcomes :: "call list \<Rightarrow> RateLimiter \<Rightarrow> error + result list" where
  "outcomes cs rl = map_sum id fst (run cs rl)"

text \<open>Consecutive \<^verbatim>\<open>isRateLimited\<close> calls for one identifier, one pair of readings each.\<close>

definition requests :: "string \<Rightarrow> (int \<times> int) list \<Rightarrow> call list" where
  "requests identifier ts = map (\<lambda>(sweep_now, now). IsRateLimited identifier sweep_now now) ts"

text \<open>The declared return type of each method.\<close>

fun declared_type :: "call \<Rightarrow> result \<Rightarrow> bool" where
  "declared_type (IsRateLimited identifier sweep_now now) v = (case v of Bool b \<Rightarrow> True | _ \<Rightarrow> False)"
| "declared_type (GetCount identifier) v = (case v of Number n \<Rightarrow> True | _ \<Rightarrow> False)"
| "declared_type (Reset identifier) v = (v = Void)"
| "declared_type Clear v = (v = Void)"
| "declared_type (Cleanup now) v = (v = Void)"

subsection \<open>Predicates used in the proofs\<close>

text \<open>Every stored count has the property \<open>P\<close>.\<close>

definition counts_satisfy :: "(int \<Rightarrow> bool) \<Rightarrow> RateLimiter \<Rightarrow> bool" where
  "counts_satisfy P rl \<longleftrightarrow> (\<forall>k r. store rl k = Some r \<longrightarrow> P (count r))"

text \<open>
  Two objects agree on \<open>b\<close> up to time \<open>T\<close> when they have the same configuration and
  either hold the same record for \<open>b\<close>, or the first holds none and the record of the second
  ended before \<open>T\<close>.
\<close>

definition agree_on :: "string \<Rightarrow> int \<Rightarrow> RateLimiter \<Rightarrow> RateLimiter \<Rightarrow> bool" where
  "agree_on b T rl1 rl2 \<longleftrightarrow>
     windowMs rl1 = windowMs rl2 \<and> maxRequests rl1 = maxRequests rl2 \<and>
     (store rl1 b = store rl2 b \<or>
      (store rl1 b = None \<and> (\<exists>r. store rl2 b = Some r \<and> resetTime r < T)))"

section \<open>Basic facts\<close>

lemma decide_eq:
  "decide now identifier rl =
     (case store rl identifier of
        None \<Rightarrow> Inr (False, rl\<lparr>store := (store rl)(identifier \<mapsto>
                      \<lparr>count = 1, resetTime = now + windowMs rl\<rparr>)\<rparr>)
      | Some r \<Rightarrow>
          if now > resetTime r
          then Inr (False, rl\<lparr>store := (store rl)(identifier \<mapsto>
                      \<lparr>count = 1, resetTime = now + windowMs rl\<rparr>)\<rparr>)
          else if real_of_int (count r) \<ge> maxRequests rl then Inr (True, rl)
          else Inr (False, rl\<lparr>store := (store rl)(identifier \<mapsto> r\<lparr>count := count r + 1\<rparr>)\<rparr>))"
  by (simp add: decide_def read_count_def read_resetTime_def split: option.splits)

lemma cleanup_fields [simp]:
  "windowMs (cleanup t rl) = windowMs rl"
  "maxRequests (cleanup t rl) = maxRequests rl"
  by (simp_all add: cleanup_def)

lemma store_cleanup:
  "store (cleanup t rl) k =
     (case store rl k of None \<Rightarrow> None
      | Some r \<Rightarrow> if t > resetTime r then None else Some r)"
  by (simp add: cleanup_def)

lemma store_cleanup_live:
  "store rl k = Some r \<Longrightarrow> t \<le> resetTime r \<Longrightarrow> store (cleanup t rl) k = Some r"
  by (simp add: store_cleanup)

lemma store_cleanup_None:
  "store rl k = None \<Longrightarrow> store (cleanup t rl) k = None"
  by (simp add: store_cleanup)

lemma decide_fields:
  "decide now k rl = Inr (b, rl') \<Longrightarrow>
     windowMs rl' = windowMs rl \<and> maxRequests rl' = maxRequests rl"
  by (auto simp: decide_eq split: option.splits if_splits)

lemma decide_total: "\<exists>b rl'. decide now k rl = Inr (b, rl')"
  by (auto simp: decide_eq split: option.splits)

lemma isRateLimited_total: "\<exists>b rl'. isRateLimited t now k rl = Inr (b, rl')"
  by (simp add: isRateLimited_def decide_total)

lemma isRateLimited_fields:
  "isRateLimited t now k rl = Inr (b, rl') \<Longrightarrow>
     windowMs rl' = windowMs rl \<and> maxRequests rl' = maxRequests rl"
  unfolding isRateLimited_def by (drule decide_fields) simp

lemma isRateLimited_admit:
  assumes "store rl k = Some r" "t \<le> resetTime r" "now \<le> resetTime r"
    and "real_of_int (count r) < maxRequests rl"
  shows "isRateLimited t now k rl =
     Inr (False, (cleanup t rl)\<lparr>store := (store (cleanup t rl))(k \<mapsto> r\<lparr>count := count r + 1\<rparr>)\<rparr>)"
  using assms by (simp add: isRateLimited_def decide_eq store_cleanup)

lemma isRateLimited_deny:
  assumes "store rl k = Some r" "t \<le> resetTime r" "now \<le> resetTime r"
    and "real_of_int (count r) \<ge> maxRequests rl"
  shows "isRateLimited t now k rl = Inr (True, cleanup t rl)"
  using assms by (simp add: isRateLimited_def decide_eq store_cleanup)

lemma isRateLimited_fresh:
  assumes "store rl k = None \<or> (\<exists>r. store rl k = Some r \<and> (t > resetTime r \<or> now > resetTime r))"
  shows "isRateLimited t now k rl =
     Inr (False, (cleanup t rl)\<lparr>store := (store (cleanup t rl))(k \<mapsto>
                      \<lparr>count = 1, resetTime = now + windowMs rl\<rparr>)\<rparr>)"
  using assms by (auto simp: isRateLimited_def decide_eq store_cleanup)

lemma run_append:
  "run (cs @ ds) rl =
     (case run cs rl of Inl e \<Rightarrow> Inl e
      | Inr (vs, rl') \<Rightarrow>
          (case run ds rl' of Inl e \<Rightarrow> Inl e
           | Inr (ws, rl'') \<Rightarrow> Inr (vs @ ws, rl'')))"
  by (induction cs arbitrary: rl) (auto split: sum.splits prod.splits)

lemma requests_Cons [simp]:
  "requests k ((t, now) # ts) = IsRateLimited k t now # requests k ts"
  by (simp add: requests_def)

lemma requests_Nil [simp]: "requests k [] = []"
  by (simp add: requests_def)

lemma requests_append [simp]: "requests k (ts @ us) = requests k ts @ requests k us"
  by (simp add: requests_def)

lemma getCount_eq:
  "getCount identifier rl = Inr (case store rl identifier of None \<Rightarrow> 0 | Some r \<Rightarrow> count r)"
  by (simp add: getCount_def read_count_def split: option.splits)

lemma reset_absent: "store rl identifier = None \<Longrightarrow> reset identifier rl = rl"
proof -
  assume "store rl identifier = None"
  then have "(store rl)(identifier := None) = store rl" by (rule fun_upd_idem)
  then show ?thesis by (simp add: reset_def)
qed

lemma exec_total: "\<exists>v rl'. exec c rl = Inr (v, rl') \<and> declared_type c v"
proof (cases c)
  case (IsRateLimited ident sweep_now now)
  obtain b rl' where "isRateLimited sweep_now now ident rl = Inr (b, rl')"
    using isRateLimited_total by blast
  then show ?thesis by (simp add: IsRateLimited)
next
  case (GetCount ident)
  then show ?thesis by (simp add: getCount_eq)
qed simp_all

lemma run_total:
  "\<exists>vs rl'. run cs rl = Inr (vs, rl') \<and> list_all2 declared_type cs vs"
proof (induction cs arbitrary: rl)
  case Nil
  then show ?case by simp
next
  case (Cons c cs)
  obtain v rl1 where 1: "exec c rl = Inr (v, rl1)" "declared_type c v"
    using exec_total by blast
  obtain vs rl2 where 2: "run cs rl1 = Inr (vs, rl2)" "list_all2 declared_type cs vs"
    using Cons.IH by blast
  from 1 2 show ?case by simp
qed

lemma exec_fields:
  "exec c rl = Inr (v, rl') \<Longrightarrow> windowMs rl' = windowMs rl \<and> maxRequests rl' = maxRequests rl"
  by (cases c)
     (auto simp: reset_def clear_def dest: isRateLimited_fields split: sum.splits)

text \<open>Requests admitted inside one window: each one adds one to the count.\<close>

lemma run_admitted:
  assumes "store rl k = Some r"
    and "real_of_int (count r + int (length ts)) \<le> maxRequests rl"
    and "\<forall>(t, now) \<in> set ts. t \<le> resetTime r \<and> now \<le> resetTime r"
  shows "\<exists>rl'. run (requests k ts) rl = Inr (replicate (length ts) (Bool False), rl')
           \<and> store rl' k = Some (r\<lparr>count := count r + int (length ts)\<rparr>)
           \<and> windowMs rl' = windowMs rl \<and> maxRequests rl' = maxRequests rl"
  using assms
proof (induction ts arbitrary: rl r)
  case Nil
  then show ?case by simp
next
  case (Cons p ts)
  obtain t now where p: "p = (t, now)" by (cases p)
  from Cons.prems p have live: "t \<le> resetTime r" "now \<le> resetTime r"
    and rest: "\<forall>(t, now) \<in> set ts. t \<le> resetTime r \<and> now \<le> resetTime r"
    and lt: "real_of_int (count r) < maxRequests rl" by auto
  let ?r1 = "r\<lparr>count := count r + 1\<rparr>"
  let ?rl1 = "(cleanup t rl)\<lparr>store := (store (cleanup t rl))(k \<mapsto> ?r1)\<rparr>"
  have step: "isRateLimited t now k rl = Inr (False, ?rl1)"
    using Cons.prems(1) live lt by (rule isRateLimited_admit)
  have s1: "store ?rl1 k = Some ?r1" by simp
  have c1: "real_of_int (count ?r1 + int (length ts)) \<le> maxRequests ?rl1"
    using Cons.prems(2) by simp
  have w1: "\<forall>(t, now) \<in> set ts. t \<le> resetTime ?r1 \<and> now \<le> resetTime ?r1"
    using rest by simp
  from Cons.IH [OF s1 c1 w1] obtain rl' where
    r: "run (requests k ts) ?rl1 = Inr (replicate (length ts) (Bool False), rl')"
    and s: "store rl' k = Some (?r1\<lparr>count := count ?r1 + int (length ts)\<rparr>)"
    and f: "windowMs rl' = windowMs ?rl1" "maxRequests rl' = maxRequests ?rl1"
    by blast
  have "run (requests k (p # ts)) rl = Inr (replicate (length (p # ts)) (Bool False), rl')"
    using step r by (simp add: p)
  moreover have "store rl' k = Some (r\<lparr>count := count r + int (length (p # ts))\<rparr>)"
    using s by (simp add: add.assoc)
  moreover have "windowMs rl' = windowMs rl" "maxRequests rl' = maxRequests rl"
    using f by simp_all
  ultimately show ?case by blast
qed

section \<open>C1: the first \<open>maxRequests\<close> calls are admitted, the next one is denied\<close>

text \<open>
  Claim C1. Let the limit be at least one and let \<open>identifier\<close> have no record. The first
  call, reading \<open>now1\<close>, opens a window that ends at \<open>now1 + windowMs\<close>. If the
  \<open>maxRequests\<close> calls that follow all read the clock (in the sweep and in the decision) no
  later than that end, then the first \<open>maxRequests\<close> calls return \<open>false\<close> and call number
  \<open>maxRequests + 1\<close> returns \<open>true\<close>. The list \<open>ts\<close> holds the readings of calls
  \<open>2, ..., maxRequests + 1\<close>; its length is the limit, which is therefore a whole number.
\<close>

theorem first_maxRequests_admitted_then_denied:
  assumes "1 \<le> maxRequests rl"
    and "store rl identifier = None"
    and "real (length ts) = maxRequests rl"
    and "\<forall>(sweep_now, now) \<in> set ts.
           sweep_now \<le> now1 + windowMs rl \<and> now \<le> now1 + windowMs rl"
  shows "outcomes (requests identifier ((sweep1, now1) # ts)) rl =
           Inr (replicate (nat \<lfloor>maxRequests rl\<rfloor>) (Bool False) @ [Bool True])"
proof -
  let ?r0 = "\<lparr>count = 1, resetTime = now1 + windowMs rl\<rparr>"
  let ?rl0 = "(cleanup sweep1 rl)\<lparr>store := (store (cleanup sweep1 rl))(identifier \<mapsto> ?r0)\<rparr>"
  have first: "isRateLimited sweep1 now1 identifier rl = Inr (False, ?rl0)"
    using assms(2) by (intro isRateLimited_fresh) simp
  from assms(1,3) have "ts \<noteq> []" by auto
  then obtain us p where ts: "ts = us @ [p]" by (metis rev_exhaust)
  obtain t now where p: "p = (t, now)" by (cases p)
  have len: "real (length us) = maxRequests rl - 1" using assms(3) ts by simp
  have s0: "store ?rl0 identifier = Some ?r0" by simp
  have c0: "real_of_int (count ?r0 + int (length us)) \<le> maxRequests ?rl0" using len by simp
  have w0: "\<forall>(t, now) \<in> set us. t \<le> resetTime ?r0 \<and> now \<le> resetTime ?r0"
    using assms(4) ts by simp
  from run_admitted [OF s0 c0 w0] obtain rl' where
    mid: "run (requests identifier us) ?rl0 = Inr (replicate (length us) (Bool False), rl')"
    and s: "store rl' identifier = Some (?r0\<lparr>count := count ?r0 + int (length us)\<rparr>)"
    and f: "windowMs rl' = windowMs ?rl0" "maxRequests rl' = maxRequests ?rl0"
    by blast
  let ?r' = "?r0\<lparr>count := count ?r0 + int (length us)\<rparr>"
  have live: "t \<le> resetTime ?r'" "now \<le> resetTime ?r'"
    using assms(4) ts p by simp_all
  have full: "real_of_int (count ?r') \<ge> maxRequests rl'" using len f by simp
  have last: "isRateLimited t now identifier rl' = Inr (True, cleanup t rl')"
    using s live full by (rule isRateLimited_deny)
  have "maxRequests rl = real_of_int (int (Suc (length us)))" using len by simp
  then have n: "nat \<lfloor>maxRequests rl\<rfloor> = Suc (length us)" by (simp only: floor_of_int nat_int)
  show ?thesis
    using first mid last
    by (simp add: outcomes_def ts p run_append n replicate_append_same)
qed

text \<open>
  The scenario of the test \<^verbatim>\<open>uses default values when not specified\<close>: a window of
  \<open>60000\<close> and a limit of \<open>100\<close>; \<open>100\<close> calls return \<open>false\<close> and call \<open>101\<close> returns
  \<open>true\<close>.
\<close>

theorem first_maxRequests_admitted_then_denied_witness:
  "1 \<le> maxRequests construct_default
   \<and> store construct_default ''test-ip'' = None
   \<and> outcomes (requests ''test-ip'' ((0, 0) # replicate 100 (5, 7))) construct_default
       = Inr (replicate 100 (Bool False) @ [Bool True])"
  using first_maxRequests_admitted_then_denied
    [of construct_default "''test-ip''" "replicate 100 (5, 7)" 0 0]
  by (simp add: construct_default_def construct_def)

section \<open>C2: a call after the end of the window opens a new window\<close>

text \<open>
  Claim C2, as amended. Whatever record \<open>identifier\<close> has (however many calls were denied
  before), a call whose clock reading lies strictly after the record's \<open>resetTime\<close> returns
  \<open>false\<close> and writes the record \<open>{count: 1, resetTime: now + windowMs}\<close>. The reading of
  the sweep plays no role.
\<close>

theorem window_elapsed_admits_fresh:
  assumes "store rl identifier = Some r" and "now > resetTime r"
  shows "\<exists>rl'. isRateLimited sweep_now now identifier rl = Inr (False, rl')
           \<and> store rl' identifier = Some \<lparr>count = 1, resetTime = now + windowMs rl\<rparr>"
  using assms by (simp add: isRateLimited_fresh)

theorem window_elapsed_admits_fresh_witness:
  "\<exists>rl'. isRateLimited 1001 1001 ''test-ip''
       \<lparr>store = [''test-ip'' \<mapsto> \<lparr>count = 1, resetTime = 1000\<rparr>], windowMs = 1000, maxRequests = 1\<rparr>
       = Inr (False, rl')
     \<and> store rl' ''test-ip'' = Some \<lparr>count = 1, resetTime = 2001\<rparr>"
  using window_elapsed_admits_fresh
    [of "\<lparr>store = [''test-ip'' \<mapsto> \<lparr>count = 1, resetTime = 1000\<rparr>], windowMs = 1000, maxRequests = 1\<rparr>"
        "''test-ip''" "\<lparr>count = 1, resetTime = 1000\<rparr>" 1001 1001]
  by simp

text \<open>
  The claim as written also covers the reading \<open>now = resetTime\<close>, where the window has
  lasted exactly \<open>windowMs\<close> milliseconds. Line 29 compares with \<^verbatim>\<open>>\<close>, so the record is
  still live there: with a window of \<open>1000\<close> and a limit of \<open>1\<close>, a call at time \<open>0\<close>
  followed by a call at time \<open>1000\<close> is denied.
\<close>

theorem window_boundary_counterexample:
  "outcomes [IsRateLimited ''test-ip'' 0 0, IsRateLimited ''test-ip'' 1000 1000] (construct 1000 1)
     = Inr [Bool False, Bool True]"
  by (simp add: outcomes_def construct_def isRateLimited_def decide_eq cleanup_def)

section \<open>C3: a denied call leaves the record as it is\<close>

text \<open>
  Claim C3. If the record of \<open>identifier\<close> is live for both clock readings of the call and
  its count has reached the limit, the call returns \<open>true\<close> and the record afterwards is the
  record before: same \<open>count\<close>, same \<open>resetTime\<close>.
\<close>

theorem denied_call_leaves_record:
  assumes "store rl identifier = Some r"
    and "sweep_now \<le> resetTime r" and "now \<le> resetTime r"
    and "real_of_int (count r) \<ge> maxRequests rl"
  shows "\<exists>rl'. isRateLimited sweep_now now identifier rl = Inr (True, rl')
           \<and> store rl' identifier = Some r"
  using assms by (simp add: isRateLimited_deny store_cleanup_live)

theorem denied_call_leaves_record_witness:
  "\<exists>rl'. isRateLimited 10 20 ''test-ip''
       \<lparr>store = [''test-ip'' \<mapsto> \<lparr>count = 3, resetTime = 1000\<rparr>], windowMs = 1000, maxRequests = 3\<rparr>
       = Inr (True, rl')
     \<and> store rl' ''test-ip'' = Some \<lparr>count = 3, resetTime = 1000\<rparr>"
  using denied_call_leaves_record
    [of "\<lparr>store = [''test-ip'' \<mapsto> \<lparr>count = 3, resetTime = 1000\<rparr>], windowMs = 1000, maxRequests = 3\<rparr>"
        "''test-ip''" "\<lparr>count = 3, resetTime = 1000\<rparr>" 10 20]
  by simp

section \<open>C4: \<open>getCount\<close> returns the stored count\<close>

text \<open>
  Claim C4, as amended. \<open>getCount\<close> leaves the object as it is, returns \<open>0\<close> for an
  identifier without a record, and returns the stored \<open>count\<close> of a record that is present,
  live or stale: the method does not read the clock. A stale record yields \<open>0\<close> once a sweep
  that reads a time after its \<open>resetTime\<close> has removed it.
\<close>

theorem getCount_reads_stored_count:
  "(\<exists>n. exec (GetCount identifier) rl = Inr (Number n, rl))
   \<and> (store rl identifier = None \<longrightarrow> getCount identifier rl = Inr 0)
   \<and> (\<forall>r. store rl identifier = Some r \<longrightarrow> getCount identifier rl = Inr (count r))
   \<and> (\<forall>r now. store rl identifier = Some r \<and> now > resetTime r \<longrightarrow>
         getCount identifier (cleanup now rl) = Inr 0)"
  by (simp add: getCount_eq store_cleanup)

theorem getCount_reads_stored_count_witness:
  "getCount ''test-ip''
     \<lparr>store = [''test-ip'' \<mapsto> \<lparr>count = 3, resetTime = 1000\<rparr>], windowMs = 1000, maxRequests = 3\<rparr>
     = Inr 3
   \<and> getCount ''test-ip'' (cleanup 2000
     \<lparr>store = [''test-ip'' \<mapsto> \<lparr>count = 3, resetTime = 1000\<rparr>], windowMs = 1000, maxRequests = 3\<rparr>)
     = Inr 0
   \<and> getCount ''other''
     \<lparr>store = [''test-ip'' \<mapsto> \<lparr>count = 3, resetTime = 1000\<rparr>], windowMs = 1000, maxRequests = 3\<rparr>
     = Inr 0"
  using getCount_reads_stored_count
    [of "''test-ip''" "\<lparr>store = [''test-ip'' \<mapsto> \<lparr>count = 3, resetTime = 1000\<rparr>], windowMs = 1000, maxRequests = 3\<rparr>"]
    getCount_reads_stored_count
    [of "''other''" "\<lparr>store = [''test-ip'' \<mapsto> \<lparr>count = 3, resetTime = 1000\<rparr>], windowMs = 1000, maxRequests = 3\<rparr>"]
  by simp

text \<open>
  The claim as written wants \<open>0\<close> for every stale record. Three calls at times \<open>0, 1, 2\<close>
  leave the record \<open>{count: 3, resetTime: 1000}\<close>; \<open>getCount\<close> returns \<open>3\<close> on that
  object, also at time \<open>2000\<close>, when the record is stale.
\<close>

theorem getCount_stale_counterexample:
  "outcomes (requests ''test-ip'' [(0, 0), (1, 1), (2, 2)] @ [GetCount ''test-ip'']) (construct 1000 3)
     = Inr [Bool False, Bool False, Bool False, Number 3]
   \<and> store \<lparr>store = [''test-ip'' \<mapsto> \<lparr>count = 3, resetTime = 1000\<rparr>], windowMs = 1000, maxRequests = 3\<rparr>
      ''test-ip'' = Some \<lparr>count = 3, resetTime = 1000\<rparr>
   \<and> (2000::int) > resetTime \<lparr>count = 3, resetTime = 1000\<rparr>
   \<and> getCount ''test-ip''
        \<lparr>store = [''test-ip'' \<mapsto> \<lparr>count = 3, resetTime = 1000\<rparr>], windowMs = 1000, maxRequests = 3\<rparr>
      = Inr 3"
  by (simp add: outcomes_def construct_def isRateLimited_def decide_eq cleanup_def getCount_eq)

section \<open>C5: the counts of a reachable object are bounded\<close>

text \<open>
  A property of counts that holds of \<open>1\<close>, and of \<open>c + 1\<close> whenever it holds of a count
  \<open>c\<close> below the limit, holds of every stored count after every call.
\<close>

lemma counts_satisfy_cleanup: "counts_satisfy P rl \<Longrightarrow> counts_satisfy P (cleanup t rl)"
  by (auto simp: counts_satisfy_def store_cleanup split: option.splits if_splits)

lemma counts_satisfy_decide:
  assumes one: "P 1"
    and step: "\<And>c. P c \<Longrightarrow> real_of_int c < maxRequests rl \<Longrightarrow> P (c + 1)"
    and inv: "counts_satisfy P rl"
    and dec: "decide now k rl = Inr (b, rl')"
  shows "counts_satisfy P rl'"
proof -
  have "P (count r)" if "store rl' j = Some r" for j r
  proof (cases "j = k")
    case False
    with dec that have "store rl j = Some r"
      by (auto simp: decide_eq split: option.splits if_splits)
    with inv show ?thesis by (simp add: counts_satisfy_def)
  next
    case True
    show ?thesis
    proof (cases "store rl k")
      case None
      with dec that True one show ?thesis by (auto simp: decide_eq)
    next
      case (Some r0)
      with inv have p0: "P (count r0)" by (simp add: counts_satisfy_def)
      show ?thesis
      proof (cases "now > resetTime r0")
        case True
        with dec that \<open>j = k\<close> Some one show ?thesis by (auto simp: decide_eq)
      next
        case live: False
        show ?thesis
        proof (cases "real_of_int (count r0) \<ge> maxRequests rl")
          case True
          with dec that \<open>j = k\<close> Some live p0 show ?thesis by (auto simp: decide_eq)
        next
          case False
          then have "P (count r0 + 1)" using p0 step by simp
          with dec that \<open>j = k\<close> Some live False show ?thesis by (auto simp: decide_eq)
        qed
      qed
    qed
  qed
  then show ?thesis by (simp add: counts_satisfy_def)
qed

lemma counts_satisfy_exec:
  assumes one: "P 1"
    and step: "\<And>c. P c \<Longrightarrow> real_of_int c < maxRequests rl \<Longrightarrow> P (c + 1)"
    and inv: "counts_satisfy P rl"
    and ex: "exec c rl = Inr (v, rl')"
  shows "counts_satisfy P rl'"
proof (cases c)
  case (IsRateLimited ident sweep_now now)
  with ex obtain b where d: "decide now ident (cleanup sweep_now rl) = Inr (b, rl')"
    by (auto simp: isRateLimited_def split: sum.splits)
  have i: "counts_satisfy P (cleanup sweep_now rl)"
    using inv by (rule counts_satisfy_cleanup)
  have st: "\<And>c. P c \<Longrightarrow> real_of_int c < maxRequests (cleanup sweep_now rl) \<Longrightarrow> P (c + 1)"
    using step by simp
  from one st i d show ?thesis by (rule counts_satisfy_decide)
next
  case (GetCount ident)
  with inv ex show ?thesis by (auto split: sum.splits)
next
  case (Reset ident)
  with inv ex show ?thesis by (auto simp: counts_satisfy_def reset_def split: if_splits)
next
  case Clear
  with inv ex show ?thesis by (auto simp: counts_satisfy_def clear_def)
next
  case (Cleanup t)
  with inv ex show ?thesis by (auto simp: counts_satisfy_cleanup)
qed

lemma counts_satisfy_run:
  assumes one: "P 1"
    and step: "\<And>c. P c \<Longrightarrow> real_of_int c < m \<Longrightarrow> P (c + 1)"
    and lim: "maxRequests rl = m"
    and inv: "counts_satisfy P rl"
    and r: "run cs rl = Inr (vs, rl')"
  shows "counts_satisfy P rl'"
  using lim inv r
proof (induction cs arbitrary: rl vs)
  case Nil
  then show ?case by simp
next
  case (Cons c cs)
  from Cons.prems(3) obtain v rl1 ws where
    1: "exec c rl = Inr (v, rl1)" and 2: "run cs rl1 = Inr (ws, rl')"
    by (auto split: sum.splits)
  have m: "maxRequests rl1 = m" using exec_fields [OF 1] Cons.prems(1) by simp
  have st: "\<And>c. P c \<Longrightarrow> real_of_int c < maxRequests rl \<Longrightarrow> P (c + 1)"
    using step Cons.prems(1) by simp
  have "counts_satisfy P rl1" using one st Cons.prems(2) 1 by (rule counts_satisfy_exec)
  with m show ?case using 2 by (rule Cons.IH)
qed

text \<open>
  Claim C5, as amended. In every object reached from the constructor by a sequence of
  \<open>isRateLimited\<close>, \<open>getCount\<close>, \<open>reset\<close>, \<open>clear\<close> and \<open>cleanup\<close> calls, with any
  clock readings, every record has \<open>count \<ge> 1\<close>. If the limit is a whole number and at
  least one, every record that is live at a time \<open>now\<close> has \<open>count \<le> maxRequests\<close>.
\<close>

theorem reachable_counts_bounded:
  assumes "run cs (construct w m) = Inr (vs, rl)"
    and "store rl k = Some r"
  shows "1 \<le> count r
         \<and> (1 \<le> m \<and> m \<in> \<int> \<and> now \<le> resetTime r \<longrightarrow> real_of_int (count r) \<le> m)"
proof -
  have start: "counts_satisfy P (construct w m)" for P
    by (simp add: counts_satisfy_def construct_def)
  have lim: "maxRequests (construct w m) = m" by (simp add: construct_def)
  have "counts_satisfy (\<lambda>c. 1 \<le> c) rl"
    using _ _ lim start assms(1) by (rule counts_satisfy_run) simp_all
  with assms(2) have pos: "1 \<le> count r" by (simp add: counts_satisfy_def)
  have "real_of_int (count r) \<le> m" if "1 \<le> m" and "m \<in> \<int>"
  proof -
    from that(2) obtain n where n: "m = real_of_int n" by (rule Ints_cases)
    with that(1) have "1 \<le> n" by simp
    have "counts_satisfy (\<lambda>c. c \<le> n) rl"
      using _ _ lim start assms(1)
    proof (rule counts_satisfy_run)
      show "1 \<le> n" by fact
      show "c + 1 \<le> n" if "c \<le> n" and "real_of_int c < m" for c
        using that n by simp
    qed
    with assms(2) have "count r \<le> n" by (simp add: counts_satisfy_def)
    then show ?thesis by (simp add: n)
  qed
  with pos show ?thesis by simp
qed

theorem reachable_counts_bounded_witness:
  "run [IsRateLimited ''a'' 0 0, IsRateLimited ''a'' 1 2, GetCount ''a'', IsRateLimited ''b'' 5 5,
        Reset ''b'', IsRateLimited ''a'' 6 7, IsRateLimited ''a'' 8 9]
       (construct 1000 3)
     = Inr ([Bool False, Bool False, Number 2, Bool False, Void, Bool False, Bool True],
            \<lparr>store = [''a'' \<mapsto> \<lparr>count = 3, resetTime = 1000\<rparr>], windowMs = 1000, maxRequests = 3\<rparr>)
   \<and> (1::real) \<le> 3 \<and> (3::real) \<in> \<int> \<and> (500::int) \<le> resetTime \<lparr>count = 3, resetTime = 1000\<rparr>
   \<and> 1 \<le> count \<lparr>count = 3, resetTime = 1000\<rparr>
   \<and> real_of_int (count \<lparr>count = 3, resetTime = 1000\<rparr>) \<le> 3"
proof -
  have r: "run [IsRateLimited ''a'' 0 0, IsRateLimited ''a'' 1 2, GetCount ''a'', IsRateLimited ''b'' 5 5,
        Reset ''b'', IsRateLimited ''a'' 6 7, IsRateLimited ''a'' 8 9]
       (construct 1000 3)
     = Inr ([Bool False, Bool False, Number 2, Bool False, Void, Bool False, Bool True],
            \<lparr>store = [''a'' \<mapsto> \<lparr>count = 3, resetTime = 1000\<rparr>], windowMs = 1000, maxRequests = 3\<rparr>)"
    by (simp add: construct_def isRateLimited_def decide_eq cleanup_def getCount_eq reset_def
        fun_eq_iff)
  have s: "store \<lparr>store = [''a'' \<mapsto> \<lparr>count = 3, resetTime = 1000\<rparr>], windowMs = 1000, maxRequests = 3\<rparr> ''a''
     = Some \<lparr>count = 3, resetTime = 1000\<rparr>" by simp
  from reachable_counts_bounded [OF r s, of 500] r show ?thesis by simp
qed

text \<open>
  The claim as written asks only for a limit of at least one. The constructor takes any
  number: with \<^verbatim>\<open>new RateLimiter(1000, 1.5)\<close> the first call stores the count \<open>1\<close>, the
  second call finds \<open>1 \<ge> 1.5\<close> false and increments, and the record, live at time \<open>1\<close>,
  has the count \<open>2\<close>, above the limit.
\<close>

theorem fractional_limit_counterexample:
  "(1::real) \<le> 3 / 2
   \<and> run (requests ''test-ip'' [(0, 0), (1, 1)]) (construct 1000 (3 / 2))
     = Inr ([Bool False, Bool False],
            \<lparr>store = [''test-ip'' \<mapsto> \<lparr>count = 2, resetTime = 1000\<rparr>],
               windowMs = 1000, maxRequests = 3 / 2\<rparr>)
   \<and> (1::int) \<le> resetTime \<lparr>count = 2, resetTime = 1000\<rparr>
   \<and> real_of_int (count \<lparr>count = 2, resetTime = 1000\<rparr>) > 3 / 2"
  by (simp add: construct_def isRateLimited_def decide_eq cleanup_def fun_eq_iff)

section \<open>C6: the sweep does not change the decision\<close>

text \<open>A sweep that reads the clock no later than the decision removes only records that the
  decision would treat as absent.\<close>

lemma sweep_irrelevant:
  assumes "sweep_now \<le> now"
  shows "\<exists>b rl1 rl2. isRateLimited sweep_now now identifier rl = Inr (b, rl1)
           \<and> isRateLimited_without_cleanup now identifier rl = Inr (b, rl2)
           \<and> store rl1 identifier = store rl2 identifier"
  using assms
  by (auto simp: isRateLimited_def isRateLimited_without_cleanup_def decide_eq store_cleanup
           split: option.splits)

text \<open>
  Claim C6. For every object and every clock reading \<open>now\<close>, used by the sweep and by the
  decision, \<open>isRateLimited\<close> returns the same boolean as the method without the call of
  \<open>cleanup\<close>, and both leave the same record, hence the same count, for the identifier.
\<close>

theorem cleanup_never_changes_decision:
  "\<exists>b rl1 rl2. isRateLimited now now identifier rl = Inr (b, rl1)
           \<and> isRateLimited_without_cleanup now identifier rl = Inr (b, rl2)
           \<and> store rl1 identifier = store rl2 identifier"
  by (rule sweep_irrelevant) simp

theorem cleanup_never_changes_decision_witness:
  "\<exists>b rl1 rl2.
     isRateLimited 2000 2000 ''a''
       \<lparr>store = [''a'' \<mapsto> \<lparr>count = 3, resetTime = 1000\<rparr>], windowMs = 1000, maxRequests = 3\<rparr>
       = Inr (b, rl1)
     \<and> isRateLimited_without_cleanup 2000 ''a''
       \<lparr>store = [''a'' \<mapsto> \<lparr>count = 3, resetTime = 1000\<rparr>], windowMs = 1000, maxRequests = 3\<rparr>
       = Inr (b, rl2)
     \<and> store rl1 ''a'' = store rl2 ''a''"
  using cleanup_never_changes_decision
    [of 2000 "''a''" "\<lparr>store = [''a'' \<mapsto> \<lparr>count = 3, resetTime = 1000\<rparr>], windowMs = 1000, maxRequests = 3\<rparr>"]
  by simp

section \<open>C7: \<open>reset\<close> and \<open>clear\<close>\<close>

text \<open>
  Claim C7. \<open>reset\<close> removes the record of the identifier and no other record, and changes
  nothing when there is none; afterwards \<open>getCount\<close> returns \<open>0\<close> and the next
  \<open>isRateLimited\<close> call returns \<open>false\<close>, whatever the record was. \<open>clear\<close> removes every
  record, so \<open>getCount\<close> returns \<open>0\<close> for every identifier.
\<close>

theorem reset_and_clear:
  "store (reset identifier rl) identifier = None
   \<and> (\<forall>k. k \<noteq> identifier \<longrightarrow> store (reset identifier rl) k = store rl k)
   \<and> (store rl identifier = None \<longrightarrow> reset identifier rl = rl)
   \<and> getCount identifier (reset identifier rl) = Inr 0
   \<and> (\<exists>rl'. isRateLimited sweep_now now identifier (reset identifier rl) = Inr (False, rl'))
   \<and> (\<forall>k. store (clear rl) k = None)
   \<and> (\<forall>k. getCount k (clear rl) = Inr 0)"
proof -
  have gone: "store (reset identifier rl) identifier = None"
    by (simp add: reset_def)
  have others: "\<forall>k. k \<noteq> identifier \<longrightarrow> store (reset identifier rl) k = store rl k"
    by (simp add: reset_def)
  have noop: "store rl identifier = None \<longrightarrow> reset identifier rl = rl"
    by (simp add: reset_absent)
  have zero: "getCount identifier (reset identifier rl) = Inr 0"
    by (simp add: getCount_eq gone)
  have admit: "\<exists>rl'. isRateLimited sweep_now now identifier (reset identifier rl) = Inr (False, rl')"
    using gone by (simp add: isRateLimited_fresh)
  have empty: "\<forall>k. store (clear rl) k = None"
    by (simp add: clear_def)
  have zeros: "\<forall>k. getCount k (clear rl) = Inr 0"
    by (simp add: getCount_eq empty)
  from gone others noop zero admit empty zeros show ?thesis by blast
qed

theorem reset_and_clear_witness:
  "getCount ''test-ip'' (reset ''test-ip''
       \<lparr>store = [''test-ip'' \<mapsto> \<lparr>count = 3, resetTime = 1000\<rparr>], windowMs = 1000, maxRequests = 3\<rparr>)
     = Inr 0
   \<and> (\<exists>rl'. isRateLimited 10 10 ''test-ip'' (reset ''test-ip''
       \<lparr>store = [''test-ip'' \<mapsto> \<lparr>count = 3, resetTime = 1000\<rparr>], windowMs = 1000, maxRequests = 3\<rparr>)
     = Inr (False, rl'))
   \<and> getCount ''test-ip'' (clear
       \<lparr>store = [''test-ip'' \<mapsto> \<lparr>count = 3, resetTime = 1000\<rparr>], windowMs = 1000, maxRequests = 3\<rparr>)
     = Inr 0
   \<and> reset ''test-ip'' (construct 1000 3) = construct 1000 3"
  using reset_and_clear
    [of "''test-ip''" "\<lparr>store = [''test-ip'' \<mapsto> \<lparr>count = 3, resetTime = 1000\<rparr>], windowMs = 1000, maxRequests = 3\<rparr>" 10 10]
    reset_and_clear [of "''test-ip''" "construct 1000 3" 10 10]
  by (simp add: construct_def)

section \<open>C8: identifiers are independent\<close>

text \<open>What a call for \<open>a\<close> does to the record of another identifier: only the sweep.\<close>

lemma isRateLimited_other:
  assumes "a \<noteq> b" and "isRateLimited t now a rl = Inr (v, rl')"
  shows "store rl' b = store (cleanup t rl) b"
  using assms
  by (auto simp: isRateLimited_def decide_eq split: option.splits if_splits)

lemma agree_on_refl: "agree_on b T rl rl"
  by (simp add: agree_on_def)

lemma agree_on_after_other:
  assumes "a \<noteq> b" and "agree_on b T rl1 rl2" and "t \<le> T"
    and "isRateLimited t now a rl1 = Inr (v, rl1')"
  shows "agree_on b T rl1' rl2"
proof -
  have s: "store rl1' b = store (cleanup t rl1) b"
    using assms(1,4) by (rule isRateLimited_other)
  have f: "windowMs rl1' = windowMs rl1" "maxRequests rl1' = maxRequests rl1"
    using isRateLimited_fields [OF assms(4)] by simp_all
  show ?thesis
    using assms(2,3) s f
    by (auto simp: agree_on_def store_cleanup split: option.splits if_splits)
qed

lemma agree_on_requests_other:
  assumes "a \<noteq> b" and "agree_on b T rl1 rl2"
    and "\<forall>(t, now) \<in> set ts. t \<le> T"
    and "run (requests a ts) rl1 = Inr (vs, rl1')"
  shows "agree_on b T rl1' rl2"
  using assms(2-)
proof (induction ts arbitrary: rl1 vs)
  case Nil
  then show ?case by simp
next
  case (Cons p ts)
  obtain t now where p: "p = (t, now)" by (cases p)
  from Cons.prems(3) p obtain v rl ws where
    1: "isRateLimited t now a rl1 = Inr (v, rl)" and 2: "run (requests a ts) rl = Inr (ws, rl1')"
    by (auto split: sum.splits)
  from Cons.prems(2) p have t: "t \<le> T" and rest: "\<forall>(t, now) \<in> set ts. t \<le> T" by auto
  have "agree_on b T rl rl2"
    using assms(1) Cons.prems(1) t 1 by (rule agree_on_after_other)
  then show ?case using rest 2 by (rule Cons.IH)
qed

lemma decide_same_record:
  assumes "store rl1 b = store rl2 b"
    and "windowMs rl1 = windowMs rl2" and "maxRequests rl1 = maxRequests rl2"
  shows "\<exists>v rl1' rl2'. decide now b rl1 = Inr (v, rl1') \<and> decide now b rl2 = Inr (v, rl2')
           \<and> store rl1' b = store rl2' b"
proof (cases "store rl2 b")
  case None
  with assms show ?thesis by (auto simp: decide_eq)
next
  case (Some r)
  with assms show ?thesis by (auto simp: decide_eq)
qed

lemma agree_on_same_decision:
  assumes "agree_on b T rl1 rl2" and "T \<le> now"
  shows "\<exists>v rl1' rl2'. isRateLimited t now b rl1 = Inr (v, rl1')
           \<and> isRateLimited t now b rl2 = Inr (v, rl2')
           \<and> store rl1' b = store rl2' b"
proof (cases "store rl1 b = store rl2 b")
  case True
  then have "store (cleanup t rl1) b = store (cleanup t rl2) b"
    by (simp add: store_cleanup)
  moreover have "windowMs (cleanup t rl1) = windowMs (cleanup t rl2)"
    "maxRequests (cleanup t rl1) = maxRequests (cleanup t rl2)"
    using assms(1) by (simp_all add: agree_on_def)
  ultimately show ?thesis
    unfolding isRateLimited_def by (rule decide_same_record)
next
  case False
  with assms(1) obtain r where 1: "store rl1 b = None"
    and 2: "store rl2 b = Some r" and 3: "resetTime r < T"
    by (auto simp: agree_on_def)
  have w: "windowMs rl1 = windowMs rl2" using assms(1) by (simp add: agree_on_def)
  from 3 assms(2) have "resetTime r < now" by simp
  with 2 have "store rl2 b = None \<or>
      (\<exists>r. store rl2 b = Some r \<and> (t > resetTime r \<or> now > resetTime r))" by simp
  from isRateLimited_fresh [OF this] isRateLimited_fresh [of rl1 b t now] 1 w
  show ?thesis by auto
qed

lemma agree_on_same_outcomes:
  assumes "agree_on b T rl1 rl2" and "\<forall>(t, now) \<in> set ts. T \<le> now"
  shows "outcomes (requests b ts) rl1 = outcomes (requests b ts) rl2"
  using assms
proof (induction ts arbitrary: rl1 rl2)
  case Nil
  then show ?case by (simp add: outcomes_def)
next
  case (Cons p ts)
  obtain t now where p: "p = (t, now)" by (cases p)
  from Cons.prems(2) p have now: "T \<le> now" and rest: "\<forall>(t, now) \<in> set ts. T \<le> now"
    by auto
  from agree_on_same_decision [OF Cons.prems(1) now, of t] obtain v rl1' rl2' where
    1: "isRateLimited t now b rl1 = Inr (v, rl1')"
    and 2: "isRateLimited t now b rl2 = Inr (v, rl2')"
    and s: "store rl1' b = store rl2' b"
    by blast
  have "windowMs rl1' = windowMs rl2'" "maxRequests rl1' = maxRequests rl2'"
    using isRateLimited_fields [OF 1] isRateLimited_fields [OF 2] Cons.prems(1)
    by (simp_all add: agree_on_def)
  with s have 3: "agree_on b T rl1' rl2'" by (simp add: agree_on_def)
  have "outcomes (requests b ts) rl1' = outcomes (requests b ts) rl2'"
    using 3 rest by (rule Cons.IH)
  then show ?case
    using 1 2 by (auto simp: outcomes_def p split: sum.splits)
qed

lemma live_record_kept:
  assumes "a \<noteq> b" and "store rl b = Some r"
    and "\<forall>(t, now) \<in> set ts. t \<le> resetTime r"
    and "run (requests a ts) rl = Inr (vs, rl')"
  shows "store rl' b = Some r"
  using assms(2-)
proof (induction ts arbitrary: rl vs)
  case Nil
  then show ?case by simp
next
  case (Cons p ts)
  obtain t now where p: "p = (t, now)" by (cases p)
  from Cons.prems(3) p obtain v rl1 ws where
    1: "isRateLimited t now a rl = Inr (v, rl1)" and 2: "run (requests a ts) rl1 = Inr (ws, rl')"
    by (auto split: sum.splits)
  from Cons.prems(2) p have t: "t \<le> resetTime r"
    and rest: "\<forall>(t, now) \<in> set ts. t \<le> resetTime r" by auto
  have "store rl1 b = Some r"
    using isRateLimited_other [OF assms(1) 1] Cons.prems(1) t by (simp add: store_cleanup)
  then show ?case using rest 2 by (rule Cons.IH)
qed

text \<open>
  Claim C8. Let \<open>a\<close> and \<open>b\<close> be distinct, and let any sequence of \<open>isRateLimited(a)\<close>
  calls take the object \<open>rl\<close> to \<open>rl'\<close>. Calls of \<open>isRateLimited(b)\<close> that come later, so
  that no sweep of an \<open>a\<close> call reads a later time than their decisions, return on
  \<open>rl'\<close> what they return on \<open>rl\<close>. A record of \<open>b\<close> that is live at every sweep of
  the \<open>a\<close> calls is the same in \<open>rl'\<close> as in \<open>rl\<close>.
\<close>

theorem identifiers_independent:
  assumes "a \<noteq> b"
    and "run (requests a tsa) rl = Inr (vs, rl')"
    and "\<forall>(sweep_a, now_a) \<in> set tsa. \<forall>(sweep_b, now_b) \<in> set tsb. sweep_a \<le> now_b"
  shows "outcomes (requests b tsb) rl' = outcomes (requests b tsb) rl
         \<and> (\<forall>r. store rl b = Some r \<and> (\<forall>(sweep_a, now_a) \<in> set tsa. sweep_a \<le> resetTime r)
                \<longrightarrow> store rl' b = Some r)"
proof -
  have kept: "\<forall>r. store rl b = Some r \<and> (\<forall>(sweep_a, now_a) \<in> set tsa. sweep_a \<le> resetTime r)
                \<longrightarrow> store rl' b = Some r"
    using live_record_kept [OF assms(1) _ _ assms(2)] by blast
  have same: "outcomes (requests b tsb) rl' = outcomes (requests b tsb) rl"
  proof (cases tsa)
    case Nil
    with assms(2) show ?thesis by simp
  next
    case (Cons p ps)
    define T where "T = Max (fst ` set tsa)"
    have fin: "finite (fst ` set tsa)" by simp
    have ne: "fst ` set tsa \<noteq> {}" using Cons by simp
    have "\<forall>p \<in> set tsa. fst p \<le> T"
      using fin by (simp add: T_def)
    then have le: "\<forall>(t, now) \<in> set tsa. t \<le> T" by auto
    have "T \<in> fst ` set tsa" unfolding T_def using fin ne by (rule Max_in)
    then obtain now_a where "(T, now_a) \<in> set tsa" by auto
    with assms(3) have ge: "\<forall>(t, now) \<in> set tsb. T \<le> now" by fastforce
    have "agree_on b T rl' rl"
      using assms(1) agree_on_refl le assms(2) by (rule agree_on_requests_other)
    then show ?thesis using ge by (rule agree_on_same_outcomes)
  qed
  from same kept show ?thesis by blast
qed

theorem identifiers_independent_witness:
  "''192.168.1.1'' \<noteq> ''192.168.1.2''
   \<and> run (requests ''192.168.1.1'' [(0, 0), (1, 1), (2, 2), (3, 3)]) (construct 1000 3)
     = Inr ([Bool False, Bool False, Bool False, Bool True],
            \<lparr>store = [''192.168.1.1'' \<mapsto> \<lparr>count = 3, resetTime = 1000\<rparr>],
               windowMs = 1000, maxRequests = 3\<rparr>)
   \<and> outcomes (requests ''192.168.1.2'' [(4, 4), (5, 5), (6, 6), (7, 7)])
        \<lparr>store = [''192.168.1.1'' \<mapsto> \<lparr>count = 3, resetTime = 1000\<rparr>],
           windowMs = 1000, maxRequests = 3\<rparr>
     = outcomes (requests ''192.168.1.2'' [(4, 4), (5, 5), (6, 6), (7, 7)]) (construct 1000 3)"
proof -
  have d: "''192.168.1.1'' \<noteq> ''192.168.1.2''" by simp
  have r: "run (requests ''192.168.1.1'' [(0, 0), (1, 1), (2, 2), (3, 3)]) (construct 1000 3)
     = Inr ([Bool False, Bool False, Bool False, Bool True],
            \<lparr>store = [''192.168.1.1'' \<mapsto> \<lparr>count = 3, resetTime = 1000\<rparr>],
               windowMs = 1000, maxRequests = 3\<rparr>)"
    by (simp add: construct_def isRateLimited_def decide_eq cleanup_def fun_eq_iff)
  have t: "\<forall>(sweep_a, now_a) \<in> set [(0, 0), (1, 1), (2, 2), (3::int, 3::int)].
           \<forall>(sweep_b, now_b) \<in> set [(4, 4), (5, 5), (6, 6), (7::int, 7::int)]. sweep_a \<le> now_b"
    by simp
  from identifiers_independent [OF d r t] d r show ?thesis by simp
qed

section \<open>C9: no operation throws\<close>

text \<open>
  Claim C9. For every object, whatever its window and limit, every identifier and all clock
  readings, \<open>isRateLimited\<close> and \<open>getCount\<close> return a value and not a \<open>TypeError\<close>: no
  property of \<^verbatim>\<open>undefined\<close> is read. Every call returns a value of its declared type, and
  so does every sequence of calls on an object built by the constructor from any two
  integers.
\<close>

theorem operations_never_throw:
  "(\<exists>b rl'. isRateLimited sweep_now now identifier rl = Inr (b, rl'))
   \<and> (\<exists>n. getCount identifier rl = Inr n)
   \<and> (\<exists>v rl'. exec c rl = Inr (v, rl') \<and> declared_type c v)
   \<and> (\<exists>vs rl'. run cs (construct w m) = Inr (vs, rl') \<and> list_all2 declared_type cs vs)"
  using isRateLimited_total exec_total run_total
  by (simp add: getCount_eq)

theorem operations_never_throw_witness:
  "(\<exists>b rl'. isRateLimited 0 0 ''never-seen'' (construct (-5) 0) = Inr (b, rl'))
   \<and> (\<exists>n. getCount ''never-seen'' (construct (-5) 0) = Inr n)
   \<and> (\<exists>vs rl'. run [GetCount ''x'', IsRateLimited ''x'' 3 1, Reset ''y'', Clear] (construct 0 (-1))
         = Inr (vs, rl')
       \<and> list_all2 declared_type [GetCount ''x'', IsRateLimited ''x'' 3 1, Reset ''y'', Clear] vs)"
  using operations_never_throw
    [of 0 0 "''never-seen''" "construct (-5) 0" Clear
        "[GetCount ''x'', IsRateLimited ''x'' 3 1, Reset ''y'', Clear]" 0 "-1"]
  by simp

section \<open>C10: no stale record right after a call\<close>

text \<open>
  Claim C10, as amended. Let the window be non-negative and let the decision read the clock
  no earlier than the sweep. Then after the call every record in the map has a
  \<open>resetTime\<close> that is at least the time read by the sweep.
\<close>

theorem no_stale_record_after_call:
  assumes "0 \<le> windowMs rl" and "sweep_now \<le> now"
  shows "\<exists>b rl'. isRateLimited sweep_now now identifier rl = Inr (b, rl')
           \<and> (\<forall>k r. store rl' k = Some r \<longrightarrow> sweep_now \<le> resetTime r)"
  using assms
  by (auto simp: isRateLimited_def decide_eq store_cleanup split: option.splits if_splits)

theorem no_stale_record_after_call_witness:
  "\<exists>b rl'. isRateLimited 1500 1600 ''a''
       \<lparr>store = [''b'' \<mapsto> \<lparr>count = 2, resetTime = 1000\<rparr>], windowMs = 0, maxRequests = 3\<rparr>
       = Inr (b, rl')
     \<and> (\<forall>k r. store rl' k = Some r \<longrightarrow> 1500 \<le> resetTime r)"
  using no_stale_record_after_call
    [of "\<lparr>store = [''b'' \<mapsto> \<lparr>count = 2, resetTime = 1000\<rparr>], windowMs = 0, maxRequests = 3\<rparr>"
        1500 1600 "''a''"]
  by simp

text \<open>
  The constructor accepts a negative window. The record that a call then writes ends before
  the call: with a window of \<open>-1000\<close>, a call at time \<open>0\<close> leaves a record whose
  \<open>resetTime\<close> is \<open>-1000\<close>, earlier than the time \<open>0\<close> read by the sweep.
\<close>

theorem negative_window_counterexample:
  "isRateLimited 0 0 ''test-ip'' (construct (-1000) 3)
     = Inr (False, \<lparr>store = [''test-ip'' \<mapsto> \<lparr>count = 1, resetTime = -1000\<rparr>],
                     windowMs = -1000, maxRequests = 3\<rparr>)
   \<and> resetTime \<lparr>count = 1, resetTime = -1000\<rparr> < 0"
  by (simp add: construct_def isRateLimited_def decide_eq cleanup_def)

end
